theory Spec2Isabelle
  imports Main "HOL-Library.Word" "HOL-Library.Monad_Syntax"
begin

unbundle bit_operations_syntax

section \<open>The radar deck driver (radardeck.c)\<close>

text \<open>
  The driver reads one byte at a time from UART1, assembles 18-byte packets
  \<^verbatim>\<open>0xA5  float x  float y  float z  float stdDev  crc8\<close>, checks the CRC-8 of the payload
  and hands the decoded position to the estimator.

  Modelling decisions:
  \<^item> \<^verbatim>\<open>uint8_t\<close> is \<open>8 word\<close>. A \<^verbatim>\<open>float\<close> is modelled by its 32-bit representation
    (\<open>32 word\<close>): the driver never computes with the values, it only moves them, and
    the properties of interest are about bit patterns.
  \<^item> The target (STM32F4, Cortex-M4) is little-endian, so reading a \<^verbatim>\<open>float\<close> through the
    cast pointer \<^verbatim>\<open>(float *)&buf[1]\<close> takes the byte at the lowest address as the least
    significant one.
  \<^item> An access outside an array is undefined behaviour in C; the model returns \<open>None\<close>
    there, so that "the result is \<open>Some\<close>" says that no such access happens.
  \<^item> The endless loop of \<^verbatim>\<open>radarTask\<close> is modelled by its body (\<open>radarStep\<close>, one received
    byte) and by the run of the body over a finite prefix of the received stream
    (\<open>radarTask\<close>). The call of \<^verbatim>\<open>estimatorEnqueuePosition\<close> is the output of a step.
  \<^item> The GPIO/UART set-up before the loop is not modelled.
\<close>

subsection \<open>Constants and types\<close>

type_synonym u8 = "8 word"
type_synonym f32 = "32 word"

definition PKT_SYNC :: u8 where
  "PKT_SYNC = 0xA5"

definition PKT_LEN :: nat where
  "PKT_LEN = 1 + 4 * 4 + 1"

text \<open>The only member of \<^verbatim>\<open>measurementSource_t\<close> (stabilizer_types.h) that the driver names.\<close>

datatype measurementSource = MeasurementSourceLocationService

text \<open>
  \<^verbatim>\<open>positionMeasurement_t\<close>, with the fields the driver sets. The fields are prefixed
  with \<open>m_\<close> because \<open>x\<close>, \<open>y\<close> and \<open>z\<close> would otherwise become constants.
\<close>

record positionMeasurement =
  m_x :: f32
  m_y :: f32
  m_z :: f32
  m_stdDev :: f32
  m_source :: measurementSource

text \<open>
  The state of the driver: the locals \<^verbatim>\<open>buf\<close> and \<^verbatim>\<open>idx\<close> of \<^verbatim>\<open>radarTask\<close> and the four
  file-level statics.
\<close>

record radar_state =
  buf :: "u8 list"
  idx :: nat
  lastX :: f32
  lastY :: f32
  lastZ :: f32
  poseValid :: u8

subsection \<open>CRC-8 helper\<close>

text \<open>
  The inner loop \<^verbatim>\<open>for (uint8_t j = 0; j < 8; j++)\<close> of \<^verbatim>\<open>crc8_maxim\<close>, started at \<open>j\<close>
  with the current values of \<^verbatim>\<open>c\<close> and \<^verbatim>\<open>b\<close>; it returns the final \<^verbatim>\<open>c\<close>.
\<close>

function crc8_inner :: "nat \<Rightarrow> u8 \<Rightarrow> u8 \<Rightarrow> u8" where
  "crc8_inner j c b =
     (if j < 8 then
        (let mix = (c XOR b) AND 1;
             c1 = drop_bit 1 c;
             c2 = (if mix \<noteq> 0 then c1 XOR 0x8C else c1);
             b1 = drop_bit 1 b
         in crc8_inner (j + 1) c2 b1)
      else c)"
  by pat_completeness auto
termination
  by (relation "measure (\<lambda>(j, c, b). 8 - j)") auto

declare crc8_inner.simps [simp del]

text \<open>
  The outer loop \<^verbatim>\<open>for (size_t i = 0; i < n; i++)\<close>, started at \<open>i\<close> with the current
  \<^verbatim>\<open>c\<close>. \<open>d\<close> is the memory from the pointer \<^verbatim>\<open>d\<close> to the end of the array it points into.
\<close>

function crc8_outer :: "u8 list \<Rightarrow> nat \<Rightarrow> nat \<Rightarrow> u8 \<Rightarrow> u8 option" where
  "crc8_outer d n i c =
     (if i < n then
        (if i < length d then crc8_outer d n (i + 1) (crc8_inner 0 c (d ! i))
         else None)
      else Some c)"
  by pat_completeness auto
termination
  by (relation "measure (\<lambda>(d, n, i, c). n - i)") auto

declare crc8_outer.simps [simp del]

definition crc8_maxim :: "u8 list \<Rightarrow> nat \<Rightarrow> u8 option" where
  "crc8_maxim d n = crc8_outer d n 0 0"

subsection \<open>Worker task\<close>

text \<open>A 32-bit load on the little-endian target: \<open>b0\<close> is the byte at the lowest address.\<close>

definition load32 :: "u8 \<Rightarrow> u8 \<Rightarrow> u8 \<Rightarrow> u8 \<Rightarrow> f32" where
  "load32 b0 b1 b2 b3 =
     ucast b0 OR push_bit 8 (ucast b1) OR push_bit 16 (ucast b2) OR push_bit 24 (ucast b3)"

text \<open>
  \<^verbatim>\<open>f[k]\<close> for \<^verbatim>\<open>float *f\<close>: the four bytes at offset \<open>4 * k\<close> of the memory \<open>f\<close> points to.
\<close>

definition load_f32 :: "u8 list \<Rightarrow> nat \<Rightarrow> f32 option" where
  "load_f32 f k =
     (if 4 * k + 4 \<le> length f
      then Some (load32 (f ! (4 * k)) (f ! (4 * k + 1)) (f ! (4 * k + 2)) (f ! (4 * k + 3)))
      else None)"

text \<open>\<^verbatim>\<open>buf[i]\<close> as an rvalue.\<close>

definition buf_load :: "u8 list \<Rightarrow> nat \<Rightarrow> u8 option" where
  "buf_load b i = (if i < length b then Some (b ! i) else None)"

text \<open>\<^verbatim>\<open>buf[idx++] = byte\<close>.\<close>

definition buf_store :: "radar_state \<Rightarrow> u8 \<Rightarrow> radar_state option" where
  "buf_store s byte =
     (if idx s < length (buf s)
      then Some (s\<lparr>buf := (buf s)[idx s := byte], idx := idx s + 1\<rparr>)
      else None)"

text \<open>
  The body of \<^verbatim>\<open>if (idx == PKT_LEN) { ... }\<close>: the checksum test, the measurement handed
  to \<^verbatim>\<open>estimatorEnqueuePosition\<close>, the update of the statics and \<^verbatim>\<open>idx = 0\<close>. The source
  reads \<^verbatim>\<open>f[0]\<close>, \<^verbatim>\<open>f[1]\<close>, \<^verbatim>\<open>f[2]\<close> a second time for the statics; nothing writes \<^verbatim>\<open>buf\<close> in
  between, so the model reads them once.
\<close>

definition frame_complete :: "radar_state \<Rightarrow> (radar_state \<times> positionMeasurement option) option" where
  "frame_complete s =
     do {
       c \<leftarrow> crc8_maxim (drop 1 (buf s)) (PKT_LEN - 2);
       t \<leftarrow> buf_load (buf s) (PKT_LEN - 1);
       if c = t then
         do {
           f0 \<leftarrow> load_f32 (drop 1 (buf s)) 0;
           f1 \<leftarrow> load_f32 (drop 1 (buf s)) 1;
           f2 \<leftarrow> load_f32 (drop 1 (buf s)) 2;
           f3 \<leftarrow> load_f32 (drop 1 (buf s)) 3;
           Some (s\<lparr>idx := 0, lastX := f0, lastY := f1, lastZ := f2, poseValid := 1\<rparr>,
                 Some \<lparr>m_x = f0, m_y = f1, m_z = f2, m_stdDev = f3,
                       m_source = MeasurementSourceLocationService\<rparr>)
         }
       else Some (s\<lparr>idx := 0\<rparr>, None)
     }"

text \<open>One iteration of \<^verbatim>\<open>for (;;)\<close>, with \<open>byte\<close> the value \<^verbatim>\<open>uart1Getchar\<close> delivered.\<close>

definition radarStep :: "radar_state \<Rightarrow> u8 \<Rightarrow> (radar_state \<times> positionMeasurement option) option" where
  "radarStep s byte =
     (if idx s = 0 then
        (if byte = PKT_SYNC then
           do { s1 \<leftarrow> buf_store s byte; Some (s1, None) }
         else Some (s, None))
      else
        do {
          s1 \<leftarrow> buf_store s byte;
          if idx s1 = PKT_LEN then frame_complete s1 else Some (s1, None)
        })"

text \<open>
  The loop over the bytes received so far; the result is the state reached and the
  measurements enqueued, oldest first.
\<close>

fun radarTask :: "radar_state \<Rightarrow> u8 list \<Rightarrow> (radar_state \<times> positionMeasurement list) option" where
  "radarTask s [] = Some (s, [])"
| "radarTask s (byte # rest) =
     do {
       (s1, m) \<leftarrow> radarStep s byte;
       (s2, ms) \<leftarrow> radarTask s1 rest;
       Some (s2, (case m of None \<Rightarrow> [] | Some v \<Rightarrow> [v]) @ ms)
     }"

text \<open>
  The state when the loop is entered: \<^verbatim>\<open>idx = 0\<close>, the statics zero-initialised, and
  \<^verbatim>\<open>buf\<close> with whatever the stack holds (\<open>b0\<close>, 18 bytes).
\<close>

definition task_start :: "u8 list \<Rightarrow> radar_state" where
  "task_start b0 = \<lparr>buf = b0, idx = 0, lastX = 0, lastY = 0, lastZ = 0, poseValid = 0\<rparr>"

subsection \<open>The wire format and the checksum as the specification words them\<close>

text \<open>
  The definitions of this subsection follow the text of the specification, not the
  code; the theorems below compare the code with them.

  One bit step of the CRC-8: "compute \<open>mix = (crc XOR byte) AND 1\<close>; shift \<open>crc\<close> right by
  1; if \<open>mix\<close> is set, XOR \<open>crc\<close> with \<open>0x8C\<close>; shift \<open>byte\<close> right by 1".
\<close>

definition spec_bit_step :: "u8 \<times> u8 \<Rightarrow> u8 \<times> u8" where
  "spec_bit_step = (\<lambda>(crc, byte).
     let mix = (crc XOR byte) AND 1;
         crc1 = drop_bit 1 crc;
         crc2 = (if mix = 1 then crc1 XOR 0x8C else crc1)
     in (crc2, drop_bit 1 byte))"

text \<open>"Initial value 0x00; for each of the payload bytes, process 8 bits."\<close>

definition spec_crc8 :: "u8 list \<Rightarrow> u8" where
  "spec_crc8 payload = foldl (\<lambda>crc byte. fst ((spec_bit_step ^^ 8) (crc, byte))) 0 payload"

text \<open>
  The little-endian reading of a byte sequence as a number, and the float32 bit pattern
  it denotes for four bytes: byte \<open>i\<close> has weight \<open>256 ^ i\<close>.
\<close>

definition le_f32 :: "u8 list \<Rightarrow> f32" where
  "le_f32 bs = horner_sum ucast 256 bs"

text \<open>The four bytes of a float32 on the wire, least significant first.\<close>

definition f32_le_bytes :: "f32 \<Rightarrow> u8 list" where
  "f32_le_bytes w = map (\<lambda>k. ucast (drop_bit (8 * k) w)) [0, 1, 2, 3]"

text \<open>
  The wire format: sync byte, the four values, and the CRC-8 of the sixteen payload
  bytes (frame indices 1 to 16).
\<close>

definition encode_frame :: "f32 \<Rightarrow> f32 \<Rightarrow> f32 \<Rightarrow> f32 \<Rightarrow> u8 list" where
  "encode_frame vx vy vz vsd =
     (let payload = f32_le_bytes vx @ f32_le_bytes vy @ f32_le_bytes vz @ f32_le_bytes vsd
      in 0xA5 # payload @ [spec_crc8 payload])"

text \<open>The payload of a frame (frame indices 1 to 16) and its trailing byte (index 17).\<close>

definition frame_payload :: "u8 list \<Rightarrow> u8 list" where
  "frame_payload fr = take 16 (drop 1 fr)"

definition frame_checksum :: "u8 list \<Rightarrow> u8" where
  "frame_checksum fr = fr ! 17"

text \<open>
  The measurement a frame denotes: frame bytes 1-4, 5-8, 9-12, 13-16 read as
  little-endian float32, in the order x, y, z, stdDev.
\<close>

definition frame_measurement :: "u8 list \<Rightarrow> positionMeasurement" where
  "frame_measurement fr =
     \<lparr>m_x = le_f32 (take 4 (drop 1 fr)), m_y = le_f32 (take 4 (drop 5 fr)),
      m_z = le_f32 (take 4 (drop 9 fr)), m_stdDev = le_f32 (take 4 (drop 13 fr)),
      m_source = MeasurementSourceLocationService\<rparr>"

text \<open>A valid frame: 18 bytes, the sync byte first, the trailing byte the CRC-8 of the payload.\<close>

definition valid_frame :: "u8 list \<Rightarrow> bool" where
  "valid_frame fr \<longleftrightarrow>
     length fr = 18 \<and> fr ! 0 = 0xA5 \<and> frame_checksum fr = spec_crc8 (frame_payload fr)"

subsection \<open>Auxiliary definitions for the proofs\<close>

text \<open>
  One shift of the checksum register with the input bit already folded in: the inner
  loop of \<open>crc8_maxim\<close> is eight of these applied to \<open>c XOR b\<close>.
\<close>

definition lfsr :: "u8 \<Rightarrow> u8" where
  "lfsr c = (if bit c 0 then drop_bit 1 c XOR 0x8C else drop_bit 1 c)"

text \<open>The invariant of the loop: \<^verbatim>\<open>buf\<close> has its 18 elements and \<^verbatim>\<open>idx\<close> points into it.\<close>

definition radar_inv :: "radar_state \<Rightarrow> bool" where
  "radar_inv s \<longleftrightarrow> length (buf s) = PKT_LEN \<and> idx s < PKT_LEN"

subsection \<open>Example data\<close>

text \<open>
  The frame of the specification's concrete scenario (x = 1.0, y = 2.0, z = 3.0,
  stdDev = 1.0), the measurement it denotes, a frame with a wrong checksum, the state at
  the start of the task over a zeroed stack, and a state holding the first 17 bytes of
  the scenario frame.
\<close>

definition ex_frame :: "u8 list" where
  "ex_frame = [0xA5, 0x00, 0x00, 0x80, 0x3F, 0x00, 0x00, 0x00, 0x40,
               0x00, 0x00, 0x40, 0x40, 0x00, 0x00, 0x80, 0x3F, 0xD5]"

definition ex_measurement :: positionMeasurement where
  "ex_measurement = \<lparr>m_x = 0x3F800000, m_y = 0x40000000, m_z = 0x40400000,
     m_stdDev = 0x3F800000, m_source = MeasurementSourceLocationService\<rparr>"

definition ex_bad_frame :: "u8 list" where
  "ex_bad_frame = [0xA5, 0x00, 0x00, 0x00, 0x00, 0x00, 0x00, 0x00, 0x00,
                   0x00, 0x00, 0x00, 0x00, 0x00, 0x00, 0x00, 0x00, 0x01]"

definition ex_start :: radar_state where
  "ex_start = task_start [0, 0, 0, 0, 0, 0, 0, 0, 0, 0, 0, 0, 0, 0, 0, 0, 0, 0]"

definition ex_pending :: radar_state where
  "ex_pending = \<lparr>buf = [0xA5, 0x00, 0x00, 0x80, 0x3F, 0x00, 0x00, 0x00, 0x40,
                         0x00, 0x00, 0x40, 0x40, 0x00, 0x00, 0x80, 0x3F, 0x00],
                  idx = 17, lastX = 7, lastY = 8, lastZ = 9, poseValid = 1\<rparr>"

section \<open>Properties\<close>

subsection \<open>The checksum loop\<close>

lemma and_one_set: "(a::u8) AND 1 = 1 \<longleftrightarrow> a AND 1 \<noteq> 0"
  by (simp add: and_one_eq mod_2_eq_odd)

lemma crc8_inner_spec:
  "j \<le> 8 \<Longrightarrow> crc8_inner j c b = fst ((spec_bit_step ^^ (8 - j)) (c, b))"
proof (induction j c b rule: crc8_inner.induct)
  case (1 j c b)
  show ?case
  proof (cases "j < 8")
    case True
    define c2 where "c2 = (if (c XOR b) AND 1 \<noteq> 0 then drop_bit 1 c XOR 0x8C else drop_bit 1 c)"
    have step: "crc8_inner j c b = crc8_inner (j + 1) c2 (drop_bit 1 b)"
      using True by (subst crc8_inner.simps) (simp add: c2_def Let_def)
    have ih: "crc8_inner (j + 1) c2 (drop_bit 1 b)
        = fst ((spec_bit_step ^^ (8 - (j + 1))) (c2, drop_bit 1 b))"
      using True by (intro "1.IH" [OF True refl refl, unfolded c2_def[symmetric], OF _ refl]) auto
    have s: "8 - j = Suc (8 - (j + 1))" using True by simp
    have x: "spec_bit_step (c, b) = (c2, drop_bit 1 b)"
      by (simp add: spec_bit_step_def c2_def Let_def and_one_set)
    show ?thesis
      unfolding step ih by (simp only: s funpow_Suc_right o_apply x)
  next
    case False
    with 1 have "j = 8" by simp
    then show ?thesis by (subst crc8_inner.simps) simp
  qed
qed

lemma crc8_outer_foldl:
  "n \<le> length d \<Longrightarrow> i \<le> n \<Longrightarrow>
   crc8_outer d n i c = Some (foldl (crc8_inner 0) c (take (n - i) (drop i d)))"
proof (induction d n i c rule: crc8_outer.induct)
  case (1 d n i c)
  show ?case
  proof (cases "i < n")
    case True
    then have il: "i < length d" using 1 by simp
    have t: "take (n - i) (drop i d) = d ! i # take (n - (i + 1)) (drop (i + 1) d)"
      using True il by (simp add: Cons_nth_drop_Suc [symmetric] take_Suc_Cons [symmetric] Suc_diff_Suc del: take_Suc_Cons)
    have "crc8_outer d n i c = crc8_outer d n (i + 1) (crc8_inner 0 c (d ! i))"
      using True il by (subst crc8_outer.simps) simp
    also have "\<dots> = Some (foldl (crc8_inner 0) (crc8_inner 0 c (d ! i)) (take (n - (i + 1)) (drop (i + 1) d)))"
      using True il 1 by (intro "1.IH") auto
    finally show ?thesis by (simp add: t)
  next
    case False
    then show ?thesis using 1 by (subst crc8_outer.simps) simp
  qed
qed

lemma spec_crc8_foldl: "spec_crc8 bs = foldl (crc8_inner 0) 0 bs"
proof -
  have "crc8_inner 0 = (\<lambda>crc byte. fst ((spec_bit_step ^^ 8) (crc, byte)))"
    by (intro ext) (simp add: crc8_inner_spec)
  then show ?thesis by (simp add: spec_crc8_def)
qed

lemma crc8_maxim_spec: "n \<le> length d \<Longrightarrow> crc8_maxim d n = Some (spec_crc8 (take n d))"
  by (simp add: crc8_maxim_def crc8_outer_foldl spec_crc8_foldl)

subsection \<open>Loads\<close>

lemma load32_le: "load32 b0 b1 b2 b3 = le_f32 [b0, b1, b2, b3]"
proof -
  have d3: "ucast b2 + push_bit 8 (ucast b3 :: f32) = ucast b2 OR push_bit 8 (ucast b3 :: f32)"
    by (rule disjunctive_add_eq_or, rule bit_eqI) (auto simp add: bit_simps dest: bit_imp_le_length)
  have d2: "ucast b1 + push_bit 8 (ucast b2 OR push_bit 8 (ucast b3 :: f32))
      = ucast b1 OR push_bit 8 (ucast b2 OR push_bit 8 (ucast b3 :: f32))"
    by (rule disjunctive_add_eq_or, rule bit_eqI) (auto simp add: bit_simps dest: bit_imp_le_length)
  have d1: "ucast b0 + push_bit 8 (ucast b1 OR push_bit 8 (ucast b2 OR push_bit 8 (ucast b3 :: f32)))
      = ucast b0 OR push_bit 8 (ucast b1 OR push_bit 8 (ucast b2 OR push_bit 8 (ucast b3 :: f32)))"
    by (rule disjunctive_add_eq_or, rule bit_eqI) (auto simp add: bit_simps dest: bit_imp_le_length)
  have m: "256 * v = push_bit 8 v" for v :: f32
    by (simp add: push_bit_eq_mult)
  have "le_f32 [b0, b1, b2, b3]
      = ucast b0 OR push_bit 8 (ucast b1 OR push_bit 8 (ucast b2 OR push_bit 8 (ucast b3)))"
    unfolding le_f32_def horner_sum_simps m
    by (simp only: add_0_right push_bit_of_0 d3 d2 d1)
  then show ?thesis
    by (simp add: load32_def push_bit_or)
qed

lemma le_f32_bytes: "le_f32 (f32_le_bytes w) = w"
  unfolding f32_le_bytes_def list.map load32_le [symmetric] load32_def
proof (rule bit_eqI)
  fix n
  assume "possible_bit TYPE(f32) n"
  then have n32: "n < 32" by simp
  let ?l = "(ucast (ucast (drop_bit (8 * 0) w) :: u8) OR
            push_bit 8 (ucast (ucast (drop_bit (8 * 1) w) :: u8)) OR
            push_bit 16 (ucast (ucast (drop_bit (8 * 2) w) :: u8)) OR
            push_bit 24 (ucast (ucast (drop_bit (8 * 3) w) :: u8))) :: f32"
  consider "n < 8" | "8 \<le> n" "n < 16" | "16 \<le> n" "n < 24" | "24 \<le> n"
    by linarith
  then show "bit ?l n = bit w n"
  proof cases
    case 1
    then show ?thesis by (auto simp add: bit_simps)
  next
    case 2
    then show ?thesis by (auto simp add: bit_simps)
  next
    case 3
    then show ?thesis by (auto simp add: bit_simps)
  next
    case 4
    then show ?thesis using n32 by (auto simp add: bit_simps)
  qed
qed

lemma length_f32_le_bytes: "length (f32_le_bytes w) = 4"
  by (simp add: f32_le_bytes_def)

lemma take4_drop: "k + 4 \<le> length xs \<Longrightarrow>
  take 4 (drop k xs) = [xs ! k, xs ! (k + 1), xs ! (k + 2), xs ! (k + 3)]"
  by (auto simp add: list_eq_iff_nth_eq nth_Cons' less_Suc_eq eval_nat_numeral)

lemma load_f32_frame:
  "length b = 18 \<Longrightarrow> k < 4 \<Longrightarrow> load_f32 (drop 1 b) k = Some (le_f32 (take 4 (drop (1 + 4 * k) b)))"
  by (simp add: load_f32_def load32_le take4_drop add.commute add.left_commute)


subsection \<open>One step\<close>

lemma frame_complete_eq:
  assumes "length (buf s) = 18"
  shows "frame_complete s =
     Some (if spec_crc8 (frame_payload (buf s)) = frame_checksum (buf s)
           then (s\<lparr>idx := 0, lastX := m_x (frame_measurement (buf s)),
                   lastY := m_y (frame_measurement (buf s)),
                   lastZ := m_z (frame_measurement (buf s)), poseValid := 1\<rparr>,
                 Some (frame_measurement (buf s)))
           else (s\<lparr>idx := 0\<rparr>, None))"
proof -
  have c: "crc8_maxim (drop 1 (buf s)) (PKT_LEN - 2) = Some (spec_crc8 (frame_payload (buf s)))"
    using assms by (simp add: crc8_maxim_spec PKT_LEN_def frame_payload_def)
  have t: "buf_load (buf s) (PKT_LEN - 1) = Some (frame_checksum (buf s))"
    using assms by (simp add: buf_load_def PKT_LEN_def frame_checksum_def)
  have f: "load_f32 (drop 1 (buf s)) 0 = Some (le_f32 (take 4 (drop 1 (buf s))))"
    "load_f32 (drop 1 (buf s)) 1 = Some (le_f32 (take 4 (drop 5 (buf s))))"
    "load_f32 (drop 1 (buf s)) 2 = Some (le_f32 (take 4 (drop 9 (buf s))))"
    "load_f32 (drop 1 (buf s)) 3 = Some (le_f32 (take 4 (drop 13 (buf s))))"
    using assms load_f32_frame [of "buf s" 0] load_f32_frame [of "buf s" 1]
      load_f32_frame [of "buf s" 2] load_f32_frame [of "buf s" 3] by simp_all
  show ?thesis
    unfolding frame_complete_def c t f by (simp add: frame_measurement_def)
qed

lemma radarStep_search:
  "idx s = 0 \<Longrightarrow> byte \<noteq> PKT_SYNC \<Longrightarrow> radarStep s byte = Some (s, None)"
  by (simp add: radarStep_def)

lemma radarStep_sync:
  "idx s = 0 \<Longrightarrow> length (buf s) = 18 \<Longrightarrow>
   radarStep s PKT_SYNC = Some (s\<lparr>buf := (buf s)[0 := PKT_SYNC], idx := 1\<rparr>, None)"
  by (simp add: radarStep_def buf_store_def)

lemma radarStep_store:
  "0 < idx s \<Longrightarrow> idx s < 17 \<Longrightarrow> length (buf s) = 18 \<Longrightarrow>
   radarStep s byte = Some (s\<lparr>buf := (buf s)[idx s := byte], idx := idx s + 1\<rparr>, None)"
  by (simp add: radarStep_def buf_store_def PKT_LEN_def)

lemma radarStep_last:
  "idx s = 17 \<Longrightarrow> length (buf s) = 18 \<Longrightarrow>
   radarStep s byte = frame_complete (s\<lparr>buf := (buf s)[17 := byte], idx := 18\<rparr>)"
  by (simp add: radarStep_def buf_store_def PKT_LEN_def)

subsection \<open>Runs\<close>

lemma radarTask_append:
  "radarTask s (as @ bs) =
     do {
       (s1, ms1) \<leftarrow> radarTask s as;
       (s2, ms2) \<leftarrow> radarTask s1 bs;
       Some (s2, ms1 @ ms2)
     }"
proof (induction as arbitrary: s)
  case Nil
  then show ?case by (cases "radarTask s bs") auto
next
  case (Cons a as)
  show ?case
  proof (cases "radarStep s a")
    case None
    then show ?thesis by simp
  next
    case (Some r)
    obtain s1 m where r: "r = (s1, m)" by (cases r)
    show ?thesis
      using Some r Cons.IH [of s1]
      by (cases "radarTask s1 as"; cases "radarTask (fst (the (radarTask s1 as))) bs") auto
  qed
qed

lemma radarTask_noise:
  "idx s = 0 \<Longrightarrow> PKT_SYNC \<notin> set noise \<Longrightarrow> radarTask s noise = Some (s, [])"
  by (induction noise) (auto simp add: radarStep_search)

lemma radarTask_accumulate:
  "0 < idx s \<Longrightarrow> idx s + length bs < 18 \<Longrightarrow> length (buf s) = 18 \<Longrightarrow>
   radarTask s bs =
     Some (s\<lparr>buf := take (idx s) (buf s) @ bs @ drop (idx s + length bs) (buf s),
             idx := idx s + length bs\<rparr>, [])"
proof (induction bs arbitrary: s)
  case Nil
  then show ?case by simp
next
  case (Cons b bs)
  let ?s1 = "s\<lparr>buf := (buf s)[idx s := b], idx := idx s + 1\<rparr>"
  have st: "radarStep s b = Some (?s1, None)"
    using Cons.prems by (intro radarStep_store) auto
  have p: "0 < idx ?s1" "idx ?s1 + length bs < 18" "length (buf ?s1) = 18"
    using Cons.prems by simp_all
  have ih: "radarTask ?s1 bs =
     Some (?s1\<lparr>buf := take (idx ?s1) (buf ?s1) @ bs @ drop (idx ?s1 + length bs) (buf ?s1),
             idx := idx ?s1 + length bs\<rparr>, [])"
    by (rule Cons.IH [OF p])
  have b: "take (idx ?s1) (buf ?s1) @ bs @ drop (idx ?s1 + length bs) (buf ?s1)
      = take (idx s) (buf s) @ (b # bs) @ drop (idx s + length (b # bs)) (buf s)"
    using Cons.prems by (simp add: take_Suc_conv_app_nth)
  show ?case
    using ih b by (simp add: st)
qed


lemma drop_last_single: "length xs = Suc n \<Longrightarrow> drop n xs = [xs ! n]"
proof -
  assume l: "length xs = Suc n"
  then have "length (drop n xs) = 1" by simp
  then obtain v where v: "drop n xs = [v]"
    by (cases "drop n xs") simp_all
  have "drop n xs ! 0 = xs ! n"
    using l by simp
  with v show ?thesis by simp
qed

lemma frame_split:
  assumes "length fr = 18"
  shows "fr = fr ! 0 # frame_payload fr @ [frame_checksum fr]"
proof -
  have a: "fr = take 1 fr @ (take 16 (drop 1 fr) @ drop 16 (drop 1 fr))"
    by (simp only: append_take_drop_id)
  have b: "take 1 fr = [fr ! 0]"
    using assms by (cases fr) simp_all
  have c: "drop 16 (drop 1 fr) = [fr ! 17]"
    using assms drop_last_single [of fr 17] by simp
  show ?thesis
    using a unfolding b c by (simp add: frame_payload_def frame_checksum_def)
qed

lemma radarTask_frame_parts:
  assumes i0: "idx s = 0" and lb: "length (buf s) = 18" and lp: "length p = 16"
  shows "radarTask s (PKT_SYNC # p @ [t]) =
     Some (if spec_crc8 p = t
           then (s\<lparr>buf := PKT_SYNC # p @ [t],
                   lastX := m_x (frame_measurement (PKT_SYNC # p @ [t])),
                   lastY := m_y (frame_measurement (PKT_SYNC # p @ [t])),
                   lastZ := m_z (frame_measurement (PKT_SYNC # p @ [t])), poseValid := 1\<rparr>,
                 [frame_measurement (PKT_SYNC # p @ [t])])
           else (s\<lparr>buf := PKT_SYNC # p @ [t]\<rparr>, []))"
proof -
  let ?fr = "PKT_SYNC # p @ [t]"
  let ?s1 = "s\<lparr>buf := (buf s)[0 := PKT_SYNC], idx := 1\<rparr>"
  let ?s2 = "s\<lparr>buf := PKT_SYNC # p @ drop 17 (buf s), idx := 17\<rparr>"
  let ?s3 = "s\<lparr>buf := ?fr, idx := 18\<rparr>"
  have st1: "radarStep s PKT_SYNC = Some (?s1, None)"
    using i0 lb by (rule radarStep_sync)
  have "radarTask ?s1 p =
     Some (?s1\<lparr>buf := take (idx ?s1) (buf ?s1) @ p @ drop (idx ?s1 + length p) (buf ?s1),
             idx := idx ?s1 + length p\<rparr>, [])"
    using lb lp by (intro radarTask_accumulate) simp_all
  moreover have "take 1 ((buf s)[0 := PKT_SYNC]) = [PKT_SYNC]"
    using lb by (cases "buf s") simp_all
  ultimately have acc: "radarTask ?s1 p = Some (?s2, [])"
    using lp by simp
  have "(PKT_SYNC # p @ [buf s ! 17])[Suc (length p) := t] = ?fr"
    by simp
  moreover have "drop 17 (buf s) = [buf s ! 17]"
    using lb drop_last_single [of "buf s" 17] by simp
  ultimately have "(PKT_SYNC # p @ drop 17 (buf s))[17 := t] = ?fr"
    using lp by simp
  then have st3: "radarStep ?s2 t = frame_complete ?s3"
    using lp lb by (simp add: radarStep_last)
  have pl: "frame_payload ?fr = p" "frame_checksum ?fr = t"
    using lp by (simp_all add: frame_payload_def frame_checksum_def nth_append)
  have fc: "frame_complete ?s3 =
     Some (if spec_crc8 p = t
           then (?s3\<lparr>idx := 0, lastX := m_x (frame_measurement ?fr),
                   lastY := m_y (frame_measurement ?fr),
                   lastZ := m_z (frame_measurement ?fr), poseValid := 1\<rparr>,
                 Some (frame_measurement ?fr))
           else (?s3\<lparr>idx := 0\<rparr>, None))"
    using frame_complete_eq [of ?s3] lp pl by simp
  have last: "radarTask ?s2 [t] =
     Some (if spec_crc8 p = t
           then (?s3\<lparr>idx := 0, lastX := m_x (frame_measurement ?fr),
                   lastY := m_y (frame_measurement ?fr),
                   lastZ := m_z (frame_measurement ?fr), poseValid := 1\<rparr>,
                 [frame_measurement ?fr])
           else (?s3\<lparr>idx := 0\<rparr>, []))"
    by (simp add: st3 fc)
  have "radarTask s ?fr = radarTask ?s1 (p @ [t])"
    by (cases "radarTask ?s1 (p @ [t])") (auto simp add: st1)
  also have "\<dots> = radarTask ?s2 [t]"
    unfolding radarTask_append acc by (cases "radarTask ?s2 [t]") auto
  finally show ?thesis
    using i0 unfolding last by simp
qed

lemma radarTask_frame:
  assumes "idx s = 0" and "length (buf s) = 18" and "length fr = 18" and "fr ! 0 = PKT_SYNC"
  shows "radarTask s fr =
     Some (if spec_crc8 (frame_payload fr) = frame_checksum fr
           then (s\<lparr>buf := fr, lastX := m_x (frame_measurement fr),
                   lastY := m_y (frame_measurement fr),
                   lastZ := m_z (frame_measurement fr), poseValid := 1\<rparr>,
                 [frame_measurement fr])
           else (s\<lparr>buf := fr\<rparr>, []))"
proof -
  have fr: "fr = PKT_SYNC # frame_payload fr @ [frame_checksum fr]"
    using frame_split [OF assms(3)] assms(4) by simp
  have lp: "length (frame_payload fr) = 16"
    using assms(3) by (simp add: frame_payload_def)
  show ?thesis
    using radarTask_frame_parts [OF assms(1,2) lp, of "frame_checksum fr"]
    unfolding fr [symmetric] .
qed


subsection \<open>Error detection of the checksum\<close>

lemma and_one_bit0: "((a::u8) AND 1 \<noteq> 0) = bit a 0"
  by (simp add: and_one_eq bit_0 mod_2_eq_odd)

lemma lfsr_xor_step:
  "(if (c XOR b) AND 1 \<noteq> 0 then drop_bit 1 c XOR 0x8C else drop_bit 1 c) XOR drop_bit 1 b
     = lfsr (c XOR b)" for c b :: u8
  unfolding and_one_bit0 lfsr_def
  by (cases "bit (c XOR b) 0") (simp_all add: xor.assoc xor.commute xor.left_commute)

lemma crc8_inner_lfsr:
  "j \<le> 8 \<Longrightarrow> crc8_inner j c b = (lfsr ^^ (8 - j)) (c XOR b) XOR drop_bit (8 - j) b"
proof (induction j c b rule: crc8_inner.induct)
  case (1 j c b)
  show ?case
  proof (cases "j < 8")
    case True
    define c2 where "c2 = (if (c XOR b) AND 1 \<noteq> 0 then drop_bit 1 c XOR 0x8C else drop_bit 1 c)"
    have step: "crc8_inner j c b = crc8_inner (j + 1) c2 (drop_bit 1 b)"
      using True by (subst crc8_inner.simps) (simp add: c2_def Let_def)
    have ih: "crc8_inner (j + 1) c2 (drop_bit 1 b)
        = (lfsr ^^ (8 - (j + 1))) (c2 XOR drop_bit 1 b) XOR drop_bit (8 - (j + 1)) (drop_bit 1 b)"
      using True by (intro "1.IH" [OF True refl refl, unfolded c2_def[symmetric], OF _ refl]) auto
    have s: "8 - j = Suc (8 - (j + 1))" using True by simp
    have x: "c2 XOR drop_bit 1 b = lfsr (c XOR b)"
      unfolding c2_def by (rule lfsr_xor_step)
    have d: "drop_bit (8 - (j + 1)) (drop_bit 1 b) = drop_bit (8 - j) b"
      using True by (simp add: s)
    show ?thesis
      unfolding step ih x d by (simp only: s funpow_Suc_right o_apply)
  next
    case False
    with 1 have "j = 8" by simp
    then show ?thesis by (subst crc8_inner.simps) (simp add: xor.assoc)
  qed
qed

lemma crc8_byte_lfsr: "crc8_inner 0 c b = (lfsr ^^ 8) (c XOR b)"
  using crc8_inner_lfsr [of 0 c b] by simp

lemma bit7_lfsr: "bit (lfsr c) 7 = bit c 0"
  by (auto simp add: lfsr_def bit_simps dest: bit_imp_le_length)

lemma xor_cancel_right: "a XOR k = b XOR k \<Longrightarrow> a = b" for a b k :: u8
proof -
  assume h: "a XOR k = b XOR k"
  have "a = (a XOR k) XOR k" by (simp add: xor.assoc)
  also have "\<dots> = (b XOR k) XOR k" by (simp only: h)
  also have "\<dots> = b" by (simp add: xor.assoc)
  finally show ?thesis .
qed

lemma xor_cancel_left: "k XOR a = k XOR b \<Longrightarrow> a = b" for a b k :: u8
  using xor_cancel_right [of a k b] by (simp add: xor.commute)

lemma lfsr_inj: "lfsr a = lfsr b \<Longrightarrow> a = b"
proof -
  assume eq: "lfsr a = lfsr b"
  have b0: "bit a 0 = bit b 0"
    using bit7_lfsr [of a] bit7_lfsr [of b] eq by simp
  have "drop_bit 1 a XOR (if bit a 0 then 0x8C else 0) = drop_bit 1 b XOR (if bit a 0 then 0x8C else 0)"
    using eq b0 by (simp add: lfsr_def split: if_splits)
  then have d: "drop_bit 1 a = drop_bit 1 b"
    by (rule xor_cancel_right)
  show "a = b"
  proof (rule bit_eqI)
    fix n
    show "bit a n = bit b n"
    proof (cases n)
      case 0
      then show ?thesis using b0 by simp
    next
      case (Suc m)
      have "bit a (Suc m) = bit (drop_bit 1 a) m" by (simp add: bit_drop_bit_eq)
      also have "\<dots> = bit (drop_bit 1 b) m" by (simp only: d)
      also have "\<dots> = bit b (Suc m)" by (simp add: bit_drop_bit_eq)
      finally show ?thesis using Suc by simp
    qed
  qed
qed

lemma lfsr_pow_inj: "(lfsr ^^ n) a = (lfsr ^^ n) b \<Longrightarrow> a = b"
  by (induction n) (auto dest: lfsr_inj)

lemma crc8_byte_inj_state: "crc8_inner 0 c b = crc8_inner 0 c' b \<Longrightarrow> c = c'"
  unfolding crc8_byte_lfsr by (drule lfsr_pow_inj) (rule xor_cancel_right)

lemma crc8_byte_inj_data: "crc8_inner 0 c b = crc8_inner 0 c b' \<Longrightarrow> b = b'"
  unfolding crc8_byte_lfsr by (drule lfsr_pow_inj) (rule xor_cancel_left)

lemma crc8_fold_inj_state:
  "foldl (crc8_inner 0) c xs = foldl (crc8_inner 0) c' xs \<Longrightarrow> c = c'"
  by (induction xs arbitrary: c c') (auto dest: crc8_byte_inj_state)

lemma crc8_fold_byte_change:
  "i < length xs \<Longrightarrow> v \<noteq> xs ! i \<Longrightarrow>
   foldl (crc8_inner 0) c (xs[i := v]) \<noteq> foldl (crc8_inner 0) c xs"
proof (induction xs arbitrary: i c)
  case Nil
  then show ?case by simp
next
  case (Cons a xs)
  show ?case
  proof (cases i)
    case 0
    with Cons.prems have "v \<noteq> a" by simp
    then have "crc8_inner 0 c v \<noteq> crc8_inner 0 c a"
      by (auto dest: crc8_byte_inj_data)
    then show ?thesis
      using 0 by (auto dest: crc8_fold_inj_state)
  next
    case (Suc k)
    then show ?thesis using Cons by simp
  qed
qed

lemma spec_crc8_byte_change:
  "i < length p \<Longrightarrow> v \<noteq> p ! i \<Longrightarrow> spec_crc8 (p[i := v]) \<noteq> spec_crc8 p"
  by (simp add: spec_crc8_foldl crc8_fold_byte_change)

lemma flip_bit_neq: "k < 8 \<Longrightarrow> flip_bit k b \<noteq> b" for b :: u8
proof
  assume k: "k < 8" and e: "flip_bit k b = b"
  have "bit (flip_bit k b) k = (\<not> bit b k)"
    using k by (simp add: bit_flip_bit_iff)
  with e show False by simp
qed


lemma PKT_LEN_18: "PKT_LEN = 18"
  by (simp add: PKT_LEN_def)

subsection \<open>Checksums of two concrete payloads\<close>

lemma crc8_bytes_scenario:
  "crc8_inner 0 0x00 0x00 = 0x00" "crc8_inner 0 0x00 0x80 = 0x8C" "crc8_inner 0 0x8C 0x3F = 0xD0"
  "crc8_inner 0 0xD0 0x00 = 0x57" "crc8_inner 0 0x57 0x00 = 0x58" "crc8_inner 0 0x58 0x00 = 0x19"
  "crc8_inner 0 0x19 0x40 = 0x47" "crc8_inner 0 0x47 0x00 = 0xC5" "crc8_inner 0 0xC5 0x00 = 0xF5"
  "crc8_inner 0 0xF5 0x40 = 0x0D" "crc8_inner 0 0x0D 0x40 = 0xBB" "crc8_inner 0 0xBB 0x00 = 0x12"
  "crc8_inner 0 0x12 0x00 = 0x21" "crc8_inner 0 0x21 0x80 = 0xF1" "crc8_inner 0 0xF1 0x3F = 0xD5"
  by code_simp+

lemma crc8_bytes_special:
  "crc8_inner 0 0x00 0xC0 = 0xCA" "crc8_inner 0 0xCA 0x7F = 0x0D" "crc8_inner 0 0x0D 0x00 = 0xFD"
  "crc8_inner 0 0xFD 0x00 = 0x89" "crc8_inner 0 0x89 0x80 = 0x9C" "crc8_inner 0 0x9C 0x7F = 0x0B"
  "crc8_inner 0 0x0B 0x00 = 0x20" "crc8_inner 0 0x20 0x00 = 0x23" "crc8_inner 0 0x23 0x80 = 0x4D"
  "crc8_inner 0 0x4D 0xFF = 0x8E" "crc8_inner 0 0x8E 0x00 = 0x93" "crc8_inner 0 0x93 0x00 = 0xF3"
  "crc8_inner 0 0xF3 0x80 = 0x1A" "crc8_inner 0 0x1A 0x3F = 0x1C"
  by code_simp+

lemma spec_crc8_scenario:
  "spec_crc8 [0x00, 0x00, 0x80, 0x3F, 0x00, 0x00, 0x00, 0x40,
              0x00, 0x00, 0x40, 0x40, 0x00, 0x00, 0x80, 0x3F] = 0xD5"
  by (simp add: spec_crc8_foldl crc8_bytes_scenario)

lemma spec_crc8_special:
  "spec_crc8 [0x00, 0x00, 0xC0, 0x7F, 0x00, 0x00, 0x80, 0x7F,
              0x00, 0x00, 0x80, 0xFF, 0x00, 0x00, 0x80, 0x3F] = 0x1C"
  by (simp add: spec_crc8_foldl crc8_bytes_scenario(1) crc8_bytes_special)

text \<open>
  The check value of the CRC-8/MAXIM (Dallas 1-Wire) parametrisation: the checksum of
  the ASCII digits 1 to 9 is \<open>0xA1\<close>.
\<close>

lemma crc8_bytes_check:
  "crc8_inner 0 0x00 0x31 = 0xE0" "crc8_inner 0 0xE0 0x32 = 0xEB" "crc8_inner 0 0xEB 0x33 = 0x95"
  "crc8_inner 0 0x95 0x34 = 0xF1" "crc8_inner 0 0xF1 0x35 = 0xAB" "crc8_inner 0 0xAB 0x36 = 0xEC"
  "crc8_inner 0 0xEC 0x37 = 0x77" "crc8_inner 0 0x77 0x38 = 0x07" "crc8_inner 0 0x07 0x39 = 0xA1"
  by code_simp+

lemma crc8_maxim_check_value:
  "crc8_maxim [0x31, 0x32, 0x33, 0x34, 0x35, 0x36, 0x37, 0x38, 0x39] 9 = Some 0xA1"
  by (simp add: crc8_maxim_spec spec_crc8_foldl crc8_bytes_check)

lemma f32_le_bytes_examples:
  "f32_le_bytes 0x3F800000 = [0x00, 0x00, 0x80, 0x3F]"
  "f32_le_bytes 0x40000000 = [0x00, 0x00, 0x00, 0x40]"
  "f32_le_bytes 0x40400000 = [0x00, 0x00, 0x40, 0x40]"
  by (simp_all add: f32_le_bytes_def)

lemma le_f32_examples:
  "le_f32 [0x00, 0x00, 0x80, 0x3F] = 0x3F800000"
  "le_f32 [0x00, 0x00, 0x00, 0x40] = 0x40000000"
  "le_f32 [0x00, 0x00, 0x40, 0x40] = 0x40400000"
  "le_f32 [0x00, 0x00, 0xC0, 0x7F] = 0x7FC00000"
  "le_f32 [0x00, 0x00, 0x80, 0x7F] = 0x7F800000"
  "le_f32 [0x00, 0x00, 0x80, 0xFF] = 0xFF800000"
  by (simp_all add: le_f32_def)


subsection \<open>Whole frames\<close>

lemma frame_measurement_encode:
  "frame_measurement (encode_frame vx vy vz vsd) =
     \<lparr>m_x = vx, m_y = vy, m_z = vz, m_stdDev = vsd, m_source = MeasurementSourceLocationService\<rparr>"
proof -
  have l: "length (f32_le_bytes w) = 4" for w
    by (rule length_f32_le_bytes)
  have "take 4 (drop 1 (encode_frame vx vy vz vsd)) = f32_le_bytes vx"
    "take 4 (drop 5 (encode_frame vx vy vz vsd)) = f32_le_bytes vy"
    "take 4 (drop 9 (encode_frame vx vy vz vsd)) = f32_le_bytes vz"
    "take 4 (drop 13 (encode_frame vx vy vz vsd)) = f32_le_bytes vsd"
    by (simp_all add: encode_frame_def Let_def l drop_Cons' )
  then show ?thesis
    by (simp add: frame_measurement_def le_f32_bytes)
qed

lemma valid_frame_encode: "valid_frame (encode_frame vx vy vz vsd)"
  by (simp add: valid_frame_def encode_frame_def Let_def length_f32_le_bytes
      frame_payload_def frame_checksum_def nth_append)

lemma radarTask_valid_frame:
  assumes "idx s = 0" and "length (buf s) = PKT_LEN" and "valid_frame fr"
  shows "radarTask s fr =
     Some (s\<lparr>buf := fr, lastX := m_x (frame_measurement fr),
             lastY := m_y (frame_measurement fr),
             lastZ := m_z (frame_measurement fr), poseValid := 1\<rparr>,
           [frame_measurement fr])"
  using assms radarTask_frame [of s fr]
  by (simp add: valid_frame_def PKT_LEN_18 PKT_SYNC_def)


subsection \<open>The loop invariant\<close>

lemma radarStep_inv:
  assumes "radar_inv s"
  shows "\<exists>s' m. radarStep s byte = Some (s', m) \<and> radar_inv s' \<and>
           (m = None \<longrightarrow> lastX s' = lastX s \<and> lastY s' = lastY s \<and> lastZ s' = lastZ s \<and>
              poseValid s' = poseValid s) \<and>
           (m \<noteq> None \<longrightarrow> poseValid s' = 1)"
proof -
  have lb: "length (buf s) = 18" and ib: "idx s < 18"
    using assms by (simp_all add: radar_inv_def PKT_LEN_18)
  consider "idx s = 0" "byte \<noteq> PKT_SYNC" | "idx s = 0" "byte = PKT_SYNC"
    | "0 < idx s" "idx s < 17" | "idx s = 17"
    using ib by linarith
  then show ?thesis
  proof cases
    case 1
    then show ?thesis using assms by (simp add: radarStep_search)
  next
    case 2
    then show ?thesis using lb by (simp add: radarStep_sync radar_inv_def PKT_LEN_18)
  next
    case 3
    then show ?thesis using lb by (simp add: radarStep_store radar_inv_def PKT_LEN_18)
  next
    case 4
    let ?s1 = "s\<lparr>buf := (buf s)[17 := byte], idx := 18\<rparr>"
    have "length (buf ?s1) = 18" using lb by simp
    from frame_complete_eq [OF this] 4 lb show ?thesis
      by (simp add: radarStep_last radar_inv_def PKT_LEN_18)
  qed
qed

lemma radarTask_inv:
  "radar_inv s \<Longrightarrow>
   \<exists>s' ms. radarTask s bs = Some (s', ms) \<and> radar_inv s' \<and>
     poseValid s' = (if ms = [] then poseValid s else 1)"
proof (induction bs arbitrary: s)
  case Nil
  then show ?case by simp
next
  case (Cons b bs)
  from radarStep_inv [OF Cons.prems, of b] obtain s1 m where
    st: "radarStep s b = Some (s1, m)" and i1: "radar_inv s1"
    and pv: "m = None \<longrightarrow> poseValid s1 = poseValid s" "m \<noteq> None \<longrightarrow> poseValid s1 = 1"
    by blast
  from Cons.IH [OF i1] obtain s2 ms where
    r: "radarTask s1 bs = Some (s2, ms)" and i2: "radar_inv s2"
    and pv2: "poseValid s2 = (if ms = [] then poseValid s1 else 1)"
    by blast
  show ?case
    using st r i2 pv pv2 by (cases m) auto
qed

lemma radar_inv_start: "length b0 = PKT_LEN \<Longrightarrow> radar_inv (task_start b0)"
  by (simp add: radar_inv_def task_start_def PKT_LEN_18)

subsection \<open>Frames and their bytes\<close>

lemma list_update_Cons_numeral:
  "(a # xs)[numeral n := v] = a # xs[pred_numeral n := v]"
  by (simp add: numeral_eq_Suc)

lemma frame_update_last:
  "length b = 18 \<Longrightarrow> frame_payload (b[17 := v]) = frame_payload b"
  "length b = 18 \<Longrightarrow> frame_checksum (b[17 := v]) = v"
  by (simp_all add: frame_payload_def frame_checksum_def drop_update_swap take_update_cancel)

lemma frame_floats:
  assumes "length fr = 18"
  shows "take 4 (drop 1 fr) = [fr ! 1, fr ! 2, fr ! 3, fr ! 4]"
    and "take 4 (drop 5 fr) = [fr ! 5, fr ! 6, fr ! 7, fr ! 8]"
    and "take 4 (drop 9 fr) = [fr ! 9, fr ! 10, fr ! 11, fr ! 12]"
    and "take 4 (drop 13 fr) = [fr ! 13, fr ! 14, fr ! 15, fr ! 16]"
proof -
  have a: "(1::nat) + 1 = 2" "(1::nat) + 2 = 3" "(1::nat) + 3 = 4"
    "(5::nat) + 1 = 6" "(5::nat) + 2 = 7" "(5::nat) + 3 = 8"
    "(9::nat) + 1 = 10" "(9::nat) + 2 = 11" "(9::nat) + 3 = 12"
    "(13::nat) + 1 = 14" "(13::nat) + 2 = 15" "(13::nat) + 3 = 16"
    by simp_all
  have b: "(1::nat) + 4 \<le> length fr" "(5::nat) + 4 \<le> length fr"
    "(9::nat) + 4 \<le> length fr" "(13::nat) + 4 \<le> length fr"
    using assms by simp_all
  show "take 4 (drop 1 fr) = [fr ! 1, fr ! 2, fr ! 3, fr ! 4]"
    using take4_drop [OF b(1)] by (simp only: a)
  show "take 4 (drop 5 fr) = [fr ! 5, fr ! 6, fr ! 7, fr ! 8]"
    using take4_drop [OF b(2)] by (simp only: a)
  show "take 4 (drop 9 fr) = [fr ! 9, fr ! 10, fr ! 11, fr ! 12]"
    using take4_drop [OF b(3)] by (simp only: a)
  show "take 4 (drop 13 fr) = [fr ! 13, fr ! 14, fr ! 15, fr ! 16]"
    using take4_drop [OF b(4)] by (simp only: a)
qed

lemma radarStep_frame_end:
  assumes "length (buf s) = PKT_LEN" and "idx s = PKT_LEN - 1"
    and "fr = (buf s)[PKT_LEN - 1 := byte]"
  shows "radarStep s byte =
     Some (if frame_checksum fr = spec_crc8 (frame_payload fr)
           then (s\<lparr>buf := fr, idx := 0, lastX := m_x (frame_measurement fr),
                   lastY := m_y (frame_measurement fr),
                   lastZ := m_z (frame_measurement fr), poseValid := 1\<rparr>,
                 Some (frame_measurement fr))
           else (s\<lparr>buf := fr, idx := 0\<rparr>, None))"
proof -
  let ?s1 = "s\<lparr>buf := fr, idx := 18\<rparr>"
  have "length (buf ?s1) = 18" using assms by (simp add: PKT_LEN_18)
  from frame_complete_eq [OF this] assms show ?thesis
    by (auto simp add: radarStep_last PKT_LEN_18)
qed

lemma radarStep_flag:
  assumes "radar_inv s"
  shows "\<exists>s' m. radarStep s byte = Some (s', m) \<and>
           (m \<noteq> None \<longleftrightarrow>
              idx s = PKT_LEN - 1 \<and>
              frame_checksum ((buf s)[PKT_LEN - 1 := byte])
                = spec_crc8 (frame_payload ((buf s)[PKT_LEN - 1 := byte]))) \<and>
           poseValid s' = (if m = None then poseValid s else 1)"
proof -
  have lb: "length (buf s) = 18" and ib: "idx s < 18"
    using assms by (simp_all add: radar_inv_def PKT_LEN_18)
  consider "idx s = 0" "byte \<noteq> PKT_SYNC" | "idx s = 0" "byte = PKT_SYNC"
    | "0 < idx s" "idx s < 17" | "idx s = 17"
    using ib by linarith
  then show ?thesis
  proof cases
    case 1
    then show ?thesis by (simp add: radarStep_search PKT_LEN_18)
  next
    case 2
    then show ?thesis using lb by (simp add: radarStep_sync PKT_LEN_18)
  next
    case 3
    then show ?thesis using lb by (simp add: radarStep_store PKT_LEN_18)
  next
    case 4
    have h: "length (buf s) = PKT_LEN" "idx s = PKT_LEN - 1"
      using lb 4 by (simp_all add: PKT_LEN_18)
    show ?thesis
      using radarStep_frame_end [OF h refl, of byte] h(2) by auto
  qed
qed

lemma frame_measurement_bytes:
  assumes "length fr = 18"
  shows "frame_measurement fr =
      \<lparr>m_x = le_f32 [fr ! 1, fr ! 2, fr ! 3, fr ! 4],
       m_y = le_f32 [fr ! 5, fr ! 6, fr ! 7, fr ! 8],
       m_z = le_f32 [fr ! 9, fr ! 10, fr ! 11, fr ! 12],
       m_stdDev = le_f32 [fr ! 13, fr ! 14, fr ! 15, fr ! 16],
       m_source = MeasurementSourceLocationService\<rparr>"
  unfolding frame_measurement_def frame_floats [OF assms] ..

lemma spec_crc8_zeros:
  "spec_crc8 [0, 0, 0, 0, 0, 0, 0, 0, 0, 0, 0, 0, 0, 0, 0, 0] = 0"
  by (simp add: spec_crc8_foldl crc8_bytes_scenario(1))

lemma valid_ex_frame: "valid_frame ex_frame"
  by (simp add: valid_frame_def ex_frame_def frame_payload_def frame_checksum_def spec_crc8_scenario)

lemma frame_measurement_ex_frame: "frame_measurement ex_frame = ex_measurement"
  by (simp add: frame_measurement_def ex_frame_def ex_measurement_def le_f32_examples)

subsection \<open>Example runs\<close>

lemma run_ex_frame:
  "radarTask ex_start ex_frame =
     Some (\<lparr>buf = ex_frame, idx = 0, lastX = 0x3F800000, lastY = 0x40000000,
            lastZ = 0x40400000, poseValid = 1\<rparr>, [ex_measurement])"
  using radarTask_valid_frame [of ex_start ex_frame]
  by (simp add: valid_ex_frame frame_measurement_ex_frame ex_start_def task_start_def
      PKT_LEN_18 ex_measurement_def)

lemma run_ex_bad_frame:
  "idx s = 0 \<Longrightarrow> length (buf s) = 18 \<Longrightarrow> radarTask s ex_bad_frame = Some (s\<lparr>buf := ex_bad_frame\<rparr>, [])"
  using radarTask_frame [of s ex_bad_frame]
  by (simp add: ex_bad_frame_def PKT_SYNC_def frame_payload_def frame_checksum_def spec_crc8_zeros)

section \<open>The claims\<close>

text \<open>
  C1. Round trip: from any state with cursor 0, feeding the 18 bytes of the wire
  encoding of \<open>(vx, vy, vz, vsd)\<close> (sync byte, the four values least significant
  byte first, the CRC-8 of frame bytes 1 to 16) one at a time emits exactly one
  measurement, whose fields are these four bit patterns.
\<close>

theorem roundtrip:
  assumes "idx s = 0" and "length (buf s) = PKT_LEN"
  shows "radarTask s (encode_frame vx vy vz vsd) =
     Some (s\<lparr>buf := encode_frame vx vy vz vsd,
             lastX := vx, lastY := vy, lastZ := vz, poseValid := 1\<rparr>,
           [\<lparr>m_x = vx, m_y = vy, m_z = vz, m_stdDev = vsd,
             m_source = MeasurementSourceLocationService\<rparr>])"
  using radarTask_valid_frame [OF assms valid_frame_encode, of vx vy vz vsd]
  by (simp add: frame_measurement_encode)

theorem roundtrip_witness:
  "idx (task_start (replicate 18 0)) = 0 \<and> length (buf (task_start (replicate 18 0))) = PKT_LEN \<and>
   encode_frame 0x3F800000 0x40000000 0x40400000 0x3F800000 =
     [0xA5, 0x00, 0x00, 0x80, 0x3F, 0x00, 0x00, 0x00, 0x40,
      0x00, 0x00, 0x40, 0x40, 0x00, 0x00, 0x80, 0x3F, 0xD5] \<and>
   radarTask (task_start (replicate 18 0))
     [0xA5, 0x00, 0x00, 0x80, 0x3F, 0x00, 0x00, 0x00, 0x40,
      0x00, 0x00, 0x40, 0x40, 0x00, 0x00, 0x80, 0x3F, 0xD5] =
     Some (\<lparr>buf = [0xA5, 0x00, 0x00, 0x80, 0x3F, 0x00, 0x00, 0x00, 0x40,
                   0x00, 0x00, 0x40, 0x40, 0x00, 0x00, 0x80, 0x3F, 0xD5],
            idx = 0, lastX = 0x3F800000, lastY = 0x40000000, lastZ = 0x40400000,
            poseValid = 1\<rparr>,
           [\<lparr>m_x = 0x3F800000, m_y = 0x40000000, m_z = 0x40400000, m_stdDev = 0x3F800000,
             m_source = MeasurementSourceLocationService\<rparr>])"
  using roundtrip [of "task_start (replicate 18 0)" "0x3F800000" "0x40000000" "0x40400000" "0x3F800000"]
  by (simp add: task_start_def PKT_LEN_18 encode_frame_def f32_le_bytes_examples spec_crc8_scenario)

text \<open>
  C2. The checksum function computes the CRC-8 as the specification words it: started
  at 0, for each byte in order eight bit steps, each computing
  \<open>mix = (crc XOR byte) AND 1\<close>, shifting \<open>crc\<close> right by one, XOR-ing it with \<open>0x8C\<close>
  when \<open>mix\<close> is set, and shifting the byte right by one. Whenever the \<open>n\<close> bytes
  lie inside the array (for the driver's call: the 16 payload bytes), the code returns
  that value for them.
\<close>

theorem crc8_maxim_computes_spec_crc8:
  "n \<le> length d \<Longrightarrow> crc8_maxim d n = Some (spec_crc8 (take n d))"
proof -
  assume n: "n \<le> length d"
  have "crc8_maxim d n = Some (foldl (crc8_inner 0) 0 (take n d))"
    using n by (simp add: crc8_maxim_def crc8_outer_foldl)
  also have "\<dots> = Some (spec_crc8 (take n d))"
    by (simp add: spec_crc8_foldl)
  finally show ?thesis .
qed

theorem crc8_maxim_computes_spec_crc8_witness:
  "(16::nat) \<le> length [0x00, 0x00, 0x80, 0x3F, 0x00, 0x00, 0x00, 0x40,
                        0x00, 0x00, 0x40, 0x40, 0x00, 0x00, 0x80, 0x3F :: u8]
   \<and> crc8_maxim [0x00, 0x00, 0x80, 0x3F, 0x00, 0x00, 0x00, 0x40,
                 0x00, 0x00, 0x40, 0x40, 0x00, 0x00, 0x80, 0x3F] 16 = Some 0xD5"
  using crc8_maxim_computes_spec_crc8 [of 16 "[0x00, 0x00, 0x80, 0x3F, 0x00, 0x00, 0x00, 0x40,
                 0x00, 0x00, 0x40, 0x40, 0x00, 0x00, 0x80, 0x3F]"]
  by (simp add: spec_crc8_scenario)

text \<open>
  C3. When the byte that completes a frame (cursor 17) makes a frame whose trailing byte
  differs from the CRC-8 of frame bytes 1 to 16, the step emits no measurement, leaves
  \<open>lastX\<close>, \<open>lastY\<close>, \<open>lastZ\<close> and \<open>poseValid\<close> as they were, and sets the cursor to 0,
  so that the assembler scans for the next sync byte.
\<close>

theorem checksum_mismatch_discards:
  assumes "length (buf s) = PKT_LEN" and "idx s = PKT_LEN - 1"
    and "fr = (buf s)[PKT_LEN - 1 := byte]"
    and "frame_checksum fr \<noteq> spec_crc8 (frame_payload fr)"
  shows "radarStep s byte = Some (s\<lparr>buf := fr, idx := 0\<rparr>, None)"
  using radarStep_frame_end [OF assms(1,2,3)] assms(4) by simp

theorem checksum_mismatch_discards_witness:
  "length (buf \<lparr>buf = [0xA5, 0x00, 0x00, 0x80, 0x3F, 0x00, 0x00, 0x00, 0x40,
                       0x00, 0x00, 0x40, 0x40, 0x00, 0x00, 0x80, 0x3F, 0x00],
                idx = 17, lastX = 7, lastY = 8, lastZ = 9, poseValid = 1\<rparr>) = PKT_LEN \<and>
   idx \<lparr>buf = [0xA5, 0x00, 0x00, 0x80, 0x3F, 0x00, 0x00, 0x00, 0x40,
               0x00, 0x00, 0x40, 0x40, 0x00, 0x00, 0x80, 0x3F, 0x00],
        idx = 17, lastX = 7, lastY = 8, lastZ = 9, poseValid = 1\<rparr> = PKT_LEN - 1 \<and>
   frame_checksum [0xA5, 0x00, 0x00, 0x80, 0x3F, 0x00, 0x00, 0x00, 0x40,
                   0x00, 0x00, 0x40, 0x40, 0x00, 0x00, 0x80, 0x3F, 0xD4]
     \<noteq> spec_crc8 (frame_payload [0xA5, 0x00, 0x00, 0x80, 0x3F, 0x00, 0x00, 0x00, 0x40,
                   0x00, 0x00, 0x40, 0x40, 0x00, 0x00, 0x80, 0x3F, 0xD4]) \<and>
   radarStep \<lparr>buf = [0xA5, 0x00, 0x00, 0x80, 0x3F, 0x00, 0x00, 0x00, 0x40,
                     0x00, 0x00, 0x40, 0x40, 0x00, 0x00, 0x80, 0x3F, 0x00],
              idx = 17, lastX = 7, lastY = 8, lastZ = 9, poseValid = 1\<rparr> 0xD4 =
     Some (\<lparr>buf = [0xA5, 0x00, 0x00, 0x80, 0x3F, 0x00, 0x00, 0x00, 0x40,
                   0x00, 0x00, 0x40, 0x40, 0x00, 0x00, 0x80, 0x3F, 0xD4],
            idx = 0, lastX = 7, lastY = 8, lastZ = 9, poseValid = 1\<rparr>, None)"
  using checksum_mismatch_discards [of
      "\<lparr>buf = [0xA5, 0x00, 0x00, 0x80, 0x3F, 0x00, 0x00, 0x00, 0x40,
               0x00, 0x00, 0x40, 0x40, 0x00, 0x00, 0x80, 0x3F, 0x00],
        idx = 17, lastX = 7, lastY = 8, lastZ = 9, poseValid = 1\<rparr>"
      "[0xA5, 0x00, 0x00, 0x80, 0x3F, 0x00, 0x00, 0x00, 0x40,
        0x00, 0x00, 0x40, 0x40, 0x00, 0x00, 0x80, 0x3F, 0xD4]" "0xD4"]
  by (simp add: PKT_LEN_18 frame_checksum_def frame_payload_def spec_crc8_scenario
      list_update_Cons_numeral)

text \<open>
  C4. When the byte that completes a frame makes a frame whose trailing byte equals the
  CRC-8 of frame bytes 1 to 16, the emitted measurement has as x, y, z, stdDev the
  little-endian reading of frame bytes 1-4, 5-8, 9-12 and 13-16, whatever these bit
  patterns are (the example after the theorem decodes a NaN and the two infinities).
\<close>

theorem valid_frame_decoded:
  assumes "length (buf s) = PKT_LEN" and "idx s = PKT_LEN - 1"
    and "fr = (buf s)[PKT_LEN - 1 := byte]"
    and "frame_checksum fr = spec_crc8 (frame_payload fr)"
  shows "radarStep s byte =
     Some (s\<lparr>buf := fr, idx := 0,
             lastX := le_f32 [fr ! 1, fr ! 2, fr ! 3, fr ! 4],
             lastY := le_f32 [fr ! 5, fr ! 6, fr ! 7, fr ! 8],
             lastZ := le_f32 [fr ! 9, fr ! 10, fr ! 11, fr ! 12],
             poseValid := 1\<rparr>,
           Some \<lparr>m_x = le_f32 [fr ! 1, fr ! 2, fr ! 3, fr ! 4],
                 m_y = le_f32 [fr ! 5, fr ! 6, fr ! 7, fr ! 8],
                 m_z = le_f32 [fr ! 9, fr ! 10, fr ! 11, fr ! 12],
                 m_stdDev = le_f32 [fr ! 13, fr ! 14, fr ! 15, fr ! 16],
                 m_source = MeasurementSourceLocationService\<rparr>)"
proof -
  have l: "length fr = 18" using assms by (simp add: PKT_LEN_18)
  show ?thesis
    using radarStep_frame_end [OF assms(1,2,3)] assms(4)
    unfolding frame_measurement_bytes [OF l] by simp
qed

theorem valid_frame_decoded_witness:
  "length (buf \<lparr>buf = [0xA5, 0x00, 0x00, 0xC0, 0x7F, 0x00, 0x00, 0x80, 0x7F,
                       0x00, 0x00, 0x80, 0xFF, 0x00, 0x00, 0x80, 0x3F, 0x00],
                idx = 17, lastX = 0, lastY = 0, lastZ = 0, poseValid = 0\<rparr>) = PKT_LEN \<and>
   idx \<lparr>buf = [0xA5, 0x00, 0x00, 0xC0, 0x7F, 0x00, 0x00, 0x80, 0x7F,
               0x00, 0x00, 0x80, 0xFF, 0x00, 0x00, 0x80, 0x3F, 0x00],
        idx = 17, lastX = 0, lastY = 0, lastZ = 0, poseValid = 0\<rparr> = PKT_LEN - 1 \<and>
   frame_checksum [0xA5, 0x00, 0x00, 0xC0, 0x7F, 0x00, 0x00, 0x80, 0x7F,
                   0x00, 0x00, 0x80, 0xFF, 0x00, 0x00, 0x80, 0x3F, 0x1C]
     = spec_crc8 (frame_payload [0xA5, 0x00, 0x00, 0xC0, 0x7F, 0x00, 0x00, 0x80, 0x7F,
                   0x00, 0x00, 0x80, 0xFF, 0x00, 0x00, 0x80, 0x3F, 0x1C]) \<and>
   radarStep \<lparr>buf = [0xA5, 0x00, 0x00, 0xC0, 0x7F, 0x00, 0x00, 0x80, 0x7F,
                     0x00, 0x00, 0x80, 0xFF, 0x00, 0x00, 0x80, 0x3F, 0x00],
              idx = 17, lastX = 0, lastY = 0, lastZ = 0, poseValid = 0\<rparr> 0x1C =
     Some (\<lparr>buf = [0xA5, 0x00, 0x00, 0xC0, 0x7F, 0x00, 0x00, 0x80, 0x7F,
                   0x00, 0x00, 0x80, 0xFF, 0x00, 0x00, 0x80, 0x3F, 0x1C],
            idx = 0, lastX = 0x7FC00000, lastY = 0x7F800000, lastZ = 0xFF800000,
            poseValid = 1\<rparr>,
           Some \<lparr>m_x = 0x7FC00000, m_y = 0x7F800000, m_z = 0xFF800000, m_stdDev = 0x3F800000,
                 m_source = MeasurementSourceLocationService\<rparr>)"
  using valid_frame_decoded [of
      "\<lparr>buf = [0xA5, 0x00, 0x00, 0xC0, 0x7F, 0x00, 0x00, 0x80, 0x7F,
               0x00, 0x00, 0x80, 0xFF, 0x00, 0x00, 0x80, 0x3F, 0x00],
        idx = 17, lastX = 0, lastY = 0, lastZ = 0, poseValid = 0\<rparr>"
      "[0xA5, 0x00, 0x00, 0xC0, 0x7F, 0x00, 0x00, 0x80, 0x7F,
        0x00, 0x00, 0x80, 0xFF, 0x00, 0x00, 0x80, 0x3F, 0x1C]" "0x1C"]
  by (simp add: PKT_LEN_18 frame_checksum_def frame_payload_def spec_crc8_special
      list_update_Cons_numeral le_f32_examples)

text \<open>
  C5. At cursor 0 a byte other than the sync value leaves the state as it is and emits
  nothing; the sync value is stored at position 0 and the cursor becomes 1. At a cursor
  strictly between 0 and 18 the statement \<^verbatim>\<open>buf[idx++] = byte\<close> stores the byte at the
  cursor and increments the cursor, whatever the byte is; this is the state the step
  ends in, except that reaching 18 is followed at once by the end-of-frame handling.
\<close>

theorem assembler_step:
  assumes "length (buf s) = PKT_LEN"
  shows "(idx s = 0 \<and> byte \<noteq> PKT_SYNC \<longrightarrow> radarStep s byte = Some (s, None)) \<and>
         (idx s = 0 \<and> byte = PKT_SYNC \<longrightarrow>
            radarStep s byte = Some (s\<lparr>buf := (buf s)[0 := byte], idx := 1\<rparr>, None)) \<and>
         (0 < idx s \<and> idx s < PKT_LEN \<longrightarrow>
            buf_store s byte = Some (s\<lparr>buf := (buf s)[idx s := byte], idx := idx s + 1\<rparr>) \<and>
            radarStep s byte =
              (if idx s + 1 = PKT_LEN
               then frame_complete (s\<lparr>buf := (buf s)[idx s := byte], idx := idx s + 1\<rparr>)
               else Some (s\<lparr>buf := (buf s)[idx s := byte], idx := idx s + 1\<rparr>, None)))"
  using assms by (simp add: radarStep_def buf_store_def PKT_LEN_18)

theorem assembler_step_witness:
  "length (buf (task_start [0, 0, 0, 0, 0, 0, 0, 0, 0, 0, 0, 0, 0, 0, 0, 0, 0, 0])) = PKT_LEN \<and>
   radarStep (task_start [0, 0, 0, 0, 0, 0, 0, 0, 0, 0, 0, 0, 0, 0, 0, 0, 0, 0]) 0x5A = Some (task_start [0, 0, 0, 0, 0, 0, 0, 0, 0, 0, 0, 0, 0, 0, 0, 0, 0, 0], None) \<and>
   radarStep (task_start [0, 0, 0, 0, 0, 0, 0, 0, 0, 0, 0, 0, 0, 0, 0, 0, 0, 0]) 0xA5 =
     Some (\<lparr>buf = [0xA5, 0, 0, 0, 0, 0, 0, 0, 0, 0, 0, 0, 0, 0, 0, 0, 0, 0],
            idx = 1, lastX = 0, lastY = 0, lastZ = 0, poseValid = 0\<rparr>, None) \<and>
   length (buf \<lparr>buf = [0xA5, 0, 0, 0, 0, 0, 0, 0, 0, 0, 0, 0, 0, 0, 0, 0, 0, 0],
                idx = 1, lastX = 0, lastY = 0, lastZ = 0, poseValid = 0\<rparr>) = PKT_LEN \<and>
   radarStep \<lparr>buf = [0xA5, 0, 0, 0, 0, 0, 0, 0, 0, 0, 0, 0, 0, 0, 0, 0, 0, 0],
              idx = 1, lastX = 0, lastY = 0, lastZ = 0, poseValid = 0\<rparr> 0xA5 =
     Some (\<lparr>buf = [0xA5, 0xA5, 0, 0, 0, 0, 0, 0, 0, 0, 0, 0, 0, 0, 0, 0, 0, 0],
            idx = 2, lastX = 0, lastY = 0, lastZ = 0, poseValid = 0\<rparr>, None)"
  using assembler_step [of "task_start [0, 0, 0, 0, 0, 0, 0, 0, 0, 0, 0, 0, 0, 0, 0, 0, 0, 0]" "0x5A"]
    assembler_step [of "task_start [0, 0, 0, 0, 0, 0, 0, 0, 0, 0, 0, 0, 0, 0, 0, 0, 0, 0]" "0xA5"]
    assembler_step [of "\<lparr>buf = [0xA5, 0, 0, 0, 0, 0, 0, 0, 0, 0, 0, 0, 0, 0, 0, 0, 0, 0],
                         idx = 1, lastX = 0, lastY = 0, lastZ = 0, poseValid = 0\<rparr>" "0xA5"]
  by (simp add: task_start_def PKT_LEN_18 PKT_SYNC_def)

text \<open>
  C6. Flipping one bit \<open>k\<close> of one of the bytes 1 to 17 of a valid frame makes the
  checksum comparison of the code fail, and feeding the damaged frame from cursor 0
  emits no measurement and leaves the cache and the flag untouched.
\<close>

theorem single_bit_flip_rejected:
  assumes "valid_frame fr" and "1 \<le> i" and "i \<le> 17" and "k < 8"
    and "idx s = 0" and "length (buf s) = PKT_LEN"
    and "fr' = fr[i := flip_bit k (fr ! i)]"
  shows "crc8_maxim (drop 1 fr') (PKT_LEN - 2) \<noteq> Some (fr' ! (PKT_LEN - 1)) \<and>
         radarTask s fr' = Some (s\<lparr>buf := fr'\<rparr>, [])"
proof -
  have l: "length fr = 18" and sy: "fr ! 0 = PKT_SYNC"
    and ck: "frame_checksum fr = spec_crc8 (frame_payload fr)"
    using assms(1) by (simp_all add: valid_frame_def PKT_SYNC_def)
  have l': "length fr' = 18" and sy': "fr' ! 0 = PKT_SYNC"
    using l sy assms(2,7) by simp_all
  have fl: "flip_bit k (fr ! i) \<noteq> fr ! i"
    using assms(4) by (rule flip_bit_neq)
  have bad: "frame_checksum fr' \<noteq> spec_crc8 (frame_payload fr')"
  proof (cases "i = 17")
    case True
    then show ?thesis
      using l ck fl assms(7) by (simp add: frame_update_last) (simp add: frame_checksum_def)
  next
    case False
    then obtain j where j: "i = Suc j" "j < 16"
      using assms(2,3) by (cases i) auto
    have p: "frame_payload fr' = (frame_payload fr)[j := flip_bit k (fr ! i)]"
      using l j assms(7) by (simp add: frame_payload_def drop_update_swap take_update_swap)
    have n: "frame_payload fr ! j = fr ! i"
      using l j by (simp add: frame_payload_def)
    have t: "frame_checksum fr' = frame_checksum fr"
      using l j assms(7) by (simp add: frame_checksum_def)
    have "spec_crc8 (frame_payload fr') \<noteq> spec_crc8 (frame_payload fr)"
      unfolding p using l j fl n by (intro spec_crc8_byte_change) (simp_all add: frame_payload_def)
    then show ?thesis using t ck by simp
  qed
  have "crc8_maxim (drop 1 fr') (PKT_LEN - 2) = Some (spec_crc8 (frame_payload fr'))"
    using l' by (simp add: crc8_maxim_spec PKT_LEN_18 frame_payload_def)
  moreover have "fr' ! (PKT_LEN - 1) = frame_checksum fr'"
    by (simp add: frame_checksum_def PKT_LEN_18)
  moreover have "radarTask s fr' = Some (s\<lparr>buf := fr'\<rparr>, [])"
    using radarTask_frame [of s fr'] assms(5,6) l' sy' bad by (simp add: PKT_LEN_18)
  ultimately show ?thesis using bad by simp
qed

theorem single_bit_flip_rejected_witness:
  "valid_frame ex_frame \<and> (1::nat) \<le> 3 \<and> (3::nat) \<le> 17 \<and> (7::nat) < 8 \<and>
   idx ex_start = 0 \<and> length (buf ex_start) = PKT_LEN \<and>
   ex_frame[3 := flip_bit 7 (ex_frame ! 3)] =
     [0xA5, 0x00, 0x00, 0x00, 0x3F, 0x00, 0x00, 0x00, 0x40,
      0x00, 0x00, 0x40, 0x40, 0x00, 0x00, 0x80, 0x3F, 0xD5] \<and>
   crc8_maxim [0x00, 0x00, 0x00, 0x3F, 0x00, 0x00, 0x00, 0x40,
      0x00, 0x00, 0x40, 0x40, 0x00, 0x00, 0x80, 0x3F, 0xD5] (PKT_LEN - 2) \<noteq> Some 0xD5 \<and>
   radarTask ex_start [0xA5, 0x00, 0x00, 0x00, 0x3F, 0x00, 0x00, 0x00, 0x40,
      0x00, 0x00, 0x40, 0x40, 0x00, 0x00, 0x80, 0x3F, 0xD5] =
     Some (ex_start\<lparr>buf := [0xA5, 0x00, 0x00, 0x00, 0x3F, 0x00, 0x00, 0x00, 0x40,
      0x00, 0x00, 0x40, 0x40, 0x00, 0x00, 0x80, 0x3F, 0xD5]\<rparr>, [])"
  using single_bit_flip_rejected [of ex_frame 3 7 ex_start
      "[0xA5, 0x00, 0x00, 0x00, 0x3F, 0x00, 0x00, 0x00, 0x40,
        0x00, 0x00, 0x40, 0x40, 0x00, 0x00, 0x80, 0x3F, 0xD5]"] valid_ex_frame
  by (simp add: ex_frame_def ex_start_def task_start_def PKT_LEN_18 list_update_Cons_numeral
      flip_bit_eq_xor)

text \<open>
  C7. The step that brings the cursor to 18 (the one entered at cursor 17) ends with the
  cursor at 0 both when the checksum matches and when it does not, and the next byte is
  handled as at the start of a search: the sync value is stored at position 0, any other
  byte is dropped.
\<close>

theorem cursor_reset_at_frame_end:
  assumes "length (buf s) = PKT_LEN" and "idx s = PKT_LEN - 1"
  shows "\<exists>s' m. radarStep s byte = Some (s', m) \<and> idx s' = 0 \<and>
           buf s' = (buf s)[PKT_LEN - 1 := byte] \<and>
           (m \<noteq> None \<longleftrightarrow> frame_checksum (buf s') = spec_crc8 (frame_payload (buf s'))) \<and>
           (\<forall>b. radarStep s' b =
              Some (if b = PKT_SYNC then s'\<lparr>buf := (buf s')[0 := b], idx := 1\<rparr> else s', None))"
proof -
  let ?fr = "(buf s)[PKT_LEN - 1 := byte]"
  have next_byte: "\<forall>b. radarStep t b =
      Some (if b = PKT_SYNC then t\<lparr>buf := (buf t)[0 := b], idx := 1\<rparr> else t, None)"
    if "idx t = 0" and "length (buf t) = PKT_LEN" for t
    using that by (simp add: radarStep_def buf_store_def PKT_LEN_18)
  have l: "length ?fr = PKT_LEN" using assms by simp
  show ?thesis
    using radarStep_frame_end [OF assms refl, of byte] next_byte l by auto
qed

theorem cursor_reset_at_frame_end_witness:
  "length (buf ex_pending) = PKT_LEN \<and> idx ex_pending = PKT_LEN - 1 \<and>
   (\<exists>s' m. radarStep ex_pending 0xD5 = Some (s', m) \<and> idx s' = 0 \<and> m \<noteq> None \<and>
      radarStep s' 0x00 = Some (s', None)) \<and>
   (\<exists>s' m. radarStep ex_pending 0xD4 = Some (s', m) \<and> idx s' = 0 \<and> m = None \<and>
      radarStep s' 0x00 = Some (s', None))"
proof -
  have h: "length (buf ex_pending) = PKT_LEN" "idx ex_pending = PKT_LEN - 1"
    by (simp_all add: ex_pending_def PKT_LEN_18)
  have c: "frame_checksum ((buf ex_pending)[PKT_LEN - 1 := 0xD5])
      = spec_crc8 (frame_payload ((buf ex_pending)[PKT_LEN - 1 := 0xD5]))"
    "frame_checksum ((buf ex_pending)[PKT_LEN - 1 := 0xD4])
      \<noteq> spec_crc8 (frame_payload ((buf ex_pending)[PKT_LEN - 1 := 0xD4]))"
    by (simp_all add: ex_pending_def PKT_LEN_18 frame_checksum_def frame_payload_def
        spec_crc8_scenario list_update_Cons_numeral)
  have z: "(0::u8) \<noteq> PKT_SYNC"
    by (simp add: PKT_SYNC_def)
  have "\<exists>s' m. radarStep ex_pending 0xD5 = Some (s', m) \<and> idx s' = 0 \<and> m \<noteq> None \<and>
      radarStep s' 0x00 = Some (s', None)"
    using cursor_reset_at_frame_end [OF h, of "0xD5"] c(1) z by fastforce
  moreover have "\<exists>s' m. radarStep ex_pending 0xD4 = Some (s', m) \<and> idx s' = 0 \<and> m = None \<and>
      radarStep s' 0x00 = Some (s', None)"
    using cursor_reset_at_frame_end [OF h, of "0xD4"] c(2) z by fastforce
  ultimately show ?thesis using h by simp
qed

text \<open>
  C8. Noise bytes, none of them the sync value, fed from cursor 0 before a valid frame
  change nothing: the run emits the one measurement, and reaches the state, that the
  frame alone does.
\<close>

theorem noise_before_frame:
  assumes "idx s = 0" and "length (buf s) = PKT_LEN"
    and "PKT_SYNC \<notin> set noise" and "valid_frame fr"
  shows "radarTask s (noise @ fr) = radarTask s fr \<and>
         radarTask s fr =
           Some (s\<lparr>buf := fr, lastX := m_x (frame_measurement fr),
                   lastY := m_y (frame_measurement fr),
                   lastZ := m_z (frame_measurement fr), poseValid := 1\<rparr>,
                 [frame_measurement fr])"
proof -
  have "radarTask s (noise @ fr) = radarTask s fr"
    unfolding radarTask_append radarTask_noise [OF assms(1,3)]
    by (cases "radarTask s fr") auto
  then show ?thesis
    using radarTask_valid_frame [OF assms(1,2,4)] by simp
qed

theorem noise_before_frame_witness:
  "idx ex_start = 0 \<and> length (buf ex_start) = PKT_LEN \<and>
   PKT_SYNC \<notin> set [0x00, 0xFF, 0x5A] \<and> valid_frame ex_frame \<and>
   radarTask ex_start ([0x00, 0xFF, 0x5A] @ ex_frame) =
     Some (\<lparr>buf = ex_frame, idx = 0, lastX = 0x3F800000, lastY = 0x40000000,
            lastZ = 0x40400000, poseValid = 1\<rparr>, [ex_measurement])"
  using noise_before_frame [of ex_start "[0x00, 0xFF, 0x5A]" ex_frame]
  by (simp add: valid_ex_frame frame_measurement_ex_frame ex_start_def task_start_def
      PKT_LEN_18 PKT_SYNC_def ex_measurement_def)



text \<open>
  C10. The validity flag is 0 when the task starts. In every state the task reaches, a
  step emits a measurement exactly when it completes a frame (cursor 17) whose trailing
  byte equals the CRC-8 of frame bytes 1 to 16, and such a step sets the flag to 1; every
  other step leaves the flag as it is. Hence a valid frame fed at cursor 0 leaves the
  flag at 1, after any received sequence the flag is 1 exactly when at least one frame
  has passed the checksum, and once it is 1 every continuation leaves it at 1.
\<close>

theorem poseValid_latches:
  assumes "length b0 = PKT_LEN"
  shows "poseValid (task_start b0) = 0 \<and>
         (\<exists>s ms. radarTask (task_start b0) bytes = Some (s, ms) \<and>
            poseValid s = (if ms = [] then 0 else 1) \<and>
            (\<forall>more. \<exists>s' ms'. radarTask s more = Some (s', ms') \<and>
               (poseValid s = 1 \<longrightarrow> poseValid s' = 1)) \<and>
            (\<forall>byte. \<exists>s' m. radarStep s byte = Some (s', m) \<and>
               (m \<noteq> None \<longleftrightarrow>
                  idx s = PKT_LEN - 1 \<and>
                  frame_checksum ((buf s)[PKT_LEN - 1 := byte])
                    = spec_crc8 (frame_payload ((buf s)[PKT_LEN - 1 := byte]))) \<and>
               poseValid s' = (if m = None then poseValid s else 1)) \<and>
            (\<forall>fr. idx s = 0 \<and> valid_frame fr \<longrightarrow>
               (\<exists>s'. radarTask s fr = Some (s', [frame_measurement fr]) \<and> poseValid s' = 1)))"
proof -
  from radarTask_inv [OF radar_inv_start [OF assms], of bytes] obtain s ms where
    r: "radarTask (task_start b0) bytes = Some (s, ms)" and i: "radar_inv s"
    and pv: "poseValid s = (if ms = [] then poseValid (task_start b0) else 1)"
    by blast
  have p0: "poseValid (task_start b0) = 0"
    by (simp add: task_start_def)
  have latch: "\<forall>more. \<exists>s' ms'. radarTask s more = Some (s', ms') \<and>
      (poseValid s = 1 \<longrightarrow> poseValid s' = 1)"
  proof
    fix more
    show "\<exists>s' ms'. radarTask s more = Some (s', ms') \<and> (poseValid s = 1 \<longrightarrow> poseValid s' = 1)"
      using radarTask_inv [OF i, of more] by auto
  qed
  have step: "\<forall>byte. \<exists>s' m. radarStep s byte = Some (s', m) \<and>
      (m \<noteq> None \<longleftrightarrow>
         idx s = PKT_LEN - 1 \<and>
         frame_checksum ((buf s)[PKT_LEN - 1 := byte])
           = spec_crc8 (frame_payload ((buf s)[PKT_LEN - 1 := byte]))) \<and>
      poseValid s' = (if m = None then poseValid s else 1)"
    using radarStep_flag [OF i] by blast
  have frame: "\<forall>fr. idx s = 0 \<and> valid_frame fr \<longrightarrow>
      (\<exists>s'. radarTask s fr = Some (s', [frame_measurement fr]) \<and> poseValid s' = 1)"
  proof (intro allI impI)
    fix fr
    assume a: "idx s = 0 \<and> valid_frame fr"
    have lb: "length (buf s) = PKT_LEN"
      using i by (simp add: radar_inv_def)
    show "\<exists>s'. radarTask s fr = Some (s', [frame_measurement fr]) \<and> poseValid s' = 1"
      using radarTask_valid_frame [of s fr] a lb by simp
  qed
  have "poseValid s = (if ms = [] then 0 else 1)"
    using pv p0 by simp
  with r latch step frame have "\<exists>s ms. radarTask (task_start b0) bytes = Some (s, ms) \<and>
            poseValid s = (if ms = [] then 0 else 1) \<and>
            (\<forall>more. \<exists>s' ms'. radarTask s more = Some (s', ms') \<and>
               (poseValid s = 1 \<longrightarrow> poseValid s' = 1)) \<and>
            (\<forall>byte. \<exists>s' m. radarStep s byte = Some (s', m) \<and>
               (m \<noteq> None \<longleftrightarrow>
                  idx s = PKT_LEN - 1 \<and>
                  frame_checksum ((buf s)[PKT_LEN - 1 := byte])
                    = spec_crc8 (frame_payload ((buf s)[PKT_LEN - 1 := byte]))) \<and>
               poseValid s' = (if m = None then poseValid s else 1)) \<and>
            (\<forall>fr. idx s = 0 \<and> valid_frame fr \<longrightarrow>
               (\<exists>s'. radarTask s fr = Some (s', [frame_measurement fr]) \<and> poseValid s' = 1))"
    by blast
  with p0 show ?thesis by (rule conjI)
qed

theorem poseValid_latches_witness:
  "length [0, 0, 0, 0, 0, 0, 0, 0, 0, 0, 0, 0, 0, 0, 0, 0, 0, 0 :: u8] = PKT_LEN \<and>
   poseValid ex_start = 0 \<and>
   radarTask ex_start [] = Some (ex_start, []) \<and> idx ex_start = 0 \<and> valid_frame ex_frame \<and>
   (\<exists>s'. radarTask ex_start ex_frame = Some (s', [ex_measurement]) \<and> poseValid s' = 1) \<and>
   radarTask ex_start (ex_frame @ ex_bad_frame) =
     Some (\<lparr>buf = ex_bad_frame, idx = 0, lastX = 0x3F800000, lastY = 0x40000000,
            lastZ = 0x40400000, poseValid = 1\<rparr>, [ex_measurement]) \<and>
   (\<exists>s ms. radarTask ex_start (ex_frame @ ex_bad_frame) = Some (s, ms) \<and>
            poseValid s = (if ms = [] then 0 else 1) \<and>
            (\<forall>more. \<exists>s' ms'. radarTask s more = Some (s', ms') \<and>
               (poseValid s = 1 \<longrightarrow> poseValid s' = 1)))"
proof -
  have l: "length [0, 0, 0, 0, 0, 0, 0, 0, 0, 0, 0, 0, 0, 0, 0, 0, 0, 0 :: u8] = PKT_LEN"
    by (simp add: PKT_LEN_18)
  have i0: "idx ex_start = 0"
    by (simp add: ex_start_def task_start_def)
  have e: "radarTask ex_start [] = Some (ex_start, [])"
    by simp
  have "\<forall>fr. idx ex_start = 0 \<and> valid_frame fr \<longrightarrow>
      (\<exists>s'. radarTask ex_start fr = Some (s', [frame_measurement fr]) \<and> poseValid s' = 1)"
    using poseValid_latches [OF l, of "[]", folded ex_start_def] by simp
  with i0 valid_ex_frame
  have "\<exists>s'. radarTask ex_start ex_frame = Some (s', [frame_measurement ex_frame]) \<and>
      poseValid s' = 1"
    by blast
  then have set_flag:
    "\<exists>s'. radarTask ex_start ex_frame = Some (s', [ex_measurement]) \<and> poseValid s' = 1"
    by (simp only: frame_measurement_ex_frame)
  have r2: "radarTask \<lparr>buf = ex_frame, idx = 0, lastX = 0x3F800000, lastY = 0x40000000,
            lastZ = 0x40400000, poseValid = 1\<rparr> ex_bad_frame =
     Some (\<lparr>buf = ex_bad_frame, idx = 0, lastX = 0x3F800000, lastY = 0x40000000,
            lastZ = 0x40400000, poseValid = 1\<rparr>, [])"
    using run_ex_bad_frame [of "\<lparr>buf = ex_frame, idx = 0, lastX = 0x3F800000,
            lastY = 0x40000000, lastZ = 0x40400000, poseValid = 1\<rparr>"]
    by (simp add: ex_frame_def)
  have run: "radarTask ex_start (ex_frame @ ex_bad_frame) =
     Some (\<lparr>buf = ex_bad_frame, idx = 0, lastX = 0x3F800000, lastY = 0x40000000,
            lastZ = 0x40400000, poseValid = 1\<rparr>, [ex_measurement])"
    by (simp add: radarTask_append run_ex_frame r2 del: radarTask.simps)
  have latched: "\<exists>s ms. radarTask ex_start (ex_frame @ ex_bad_frame) = Some (s, ms) \<and>
            poseValid s = (if ms = [] then 0 else 1) \<and>
            (\<forall>more. \<exists>s' ms'. radarTask s more = Some (s', ms') \<and>
               (poseValid s = 1 \<longrightarrow> poseValid s' = 1))"
    using poseValid_latches [OF l, of "ex_frame @ ex_bad_frame", folded ex_start_def]
    by blast
  have p0: "poseValid ex_start = 0"
    using poseValid_latches [OF l, of "[]", folded ex_start_def] by blast
  show ?thesis
    using l p0 e i0 valid_ex_frame set_flag run latched by blast
qed

end
